theory Spec2Isabelle
  imports Complex_Main "HOL-Library.Sublist"
begin

section \<open>Equal-angle cevian concurrency: counting the solutions of the Ceva relation\<close>

subsection \<open>Errors and floating-point operations\<close>

text \<open>
  The program is pure Python over \<open>int\<close> and \<open>float\<close>. Every exception the interpreter
  can raise in the modelled functions is a value of \<open>error\<close>; a computation that may raise
  has type \<open>error + 'a\<close> with \<open>Inl\<close> the exception.
\<close>

datatype error = ZeroDivisionError | ValueError | OverflowError | IndexError | TypeError | OSError

definition bind_err :: "error + 'a \<Rightarrow> ('a \<Rightarrow> error + 'b) \<Rightarrow> error + 'b" where
  "bind_err m f = (case m of Inl e \<Rightarrow> Inl e | Inr x \<Rightarrow> f x)"

text \<open>
  The double-precision arithmetic the source relies on is a parameter of the model: a
  record of the operations the code applies to \<open>float\<close> values, over an arbitrary carrier
  \<open>'f\<close>. The operations that raise in Python are fallible here:
  \<^item> \<open>f_of_int\<close>: the implicit \<open>int \<rightarrow> float\<close> conversion of mixed arithmetic
    (\<open>3.0 * (n + 1)\<close>, \<open>k * theta\<close>), which raises OverflowError on a huge int;
  \<^item> \<open>f_div\<close>: \<open>/\<close>, which raises ZeroDivisionError;
  \<^item> \<open>f_tan\<close>: \<open>math.tan\<close>, which raises ValueError outside its domain;
  \<^item> \<open>f_round\<close>: \<open>int(round(x))\<close>, which raises on NaN and infinities.
  \<open>f_lit d\<close> is the literal \<open>d.0\<close>; \<open>f_le\<close> is \<open><=\<close> (false on NaN).
  What is proved for every \<open>'f float_ops\<close> holds for IEEE-754 doubles in particular.
\<close>

record 'f float_ops =
  f_lit :: "int \<Rightarrow> 'f"
  f_of_int :: "int \<Rightarrow> error + 'f"
  f_pi :: "'f"
  f_sqrt :: "'f \<Rightarrow> 'f"
  f_tan :: "'f \<Rightarrow> error + 'f"
  f_atan :: "'f \<Rightarrow> 'f"
  f_add :: "'f \<Rightarrow> 'f \<Rightarrow> 'f"
  f_sub :: "'f \<Rightarrow> 'f \<Rightarrow> 'f"
  f_mul :: "'f \<Rightarrow> 'f \<Rightarrow> 'f"
  f_div :: "'f \<Rightarrow> 'f \<Rightarrow> error + 'f"
  f_abs :: "'f \<Rightarrow> 'f"
  f_le :: "'f \<Rightarrow> 'f \<Rightarrow> bool"
  f_round :: "'f \<Rightarrow> error + int"

text \<open>\<^verbatim>\<open>SQRT3 = math.sqrt(3.0)\<close>\<close>

definition SQRT3 :: "'f float_ops \<Rightarrow> 'f" where
  "SQRT3 fl = f_sqrt fl (f_lit fl 3)"

text \<open>
  List indexing as Python does it: a negative index counts from the end, an index out of
  range raises IndexError.
\<close>

definition py_getitem :: "'a list \<Rightarrow> int \<Rightarrow> error + 'a" where
  "py_getitem xs i =
     (let len = int (length xs); j = (if i < 0 then len + i else i)
      in if 0 \<le> j \<and> j < len then Inr (xs ! nat j) else Inl IndexError)"

definition py_setitem :: "'a list \<Rightarrow> int \<Rightarrow> 'a \<Rightarrow> error + 'a list" where
  "py_setitem xs i v =
     (let len = int (length xs); j = (if i < 0 then len + i else i)
      in if 0 \<le> j \<and> j < len then Inr (xs[nat j := v]) else Inl IndexError)"

text \<open>\<open>x / theta\<close> where \<open>theta\<close> may be \<open>None\<close> (it is, when \<open>precompute_R\<close> got \<open>n \<le> 0\<close>).\<close>

definition py_truediv :: "'f float_ops \<Rightarrow> 'f \<Rightarrow> 'f option \<Rightarrow> error + 'f" where
  "py_truediv fl x theta = (case theta of None \<Rightarrow> Inl TypeError | Some th \<Rightarrow> f_div fl x th)"

subsection \<open>AngleTable: \<open>precompute_R\<close>\<close>

text \<open>
  \<^verbatim>\<open>
  def precompute_R(n: int):
      if n <= 0:
          return (None, [])
      theta = math.pi / (3.0 * (n + 1))
      R = [0.0] * (n + 1)  # 1-based
      for k in range(1, n + 1):
          t = math.tan(k * theta)
          R[k] = (2.0 * t) / (SQRT3 - t)
      return theta, R
  \<close>
\<close>

definition precompute_R_body :: "'f float_ops \<Rightarrow> 'f \<Rightarrow> int \<Rightarrow> 'f list \<Rightarrow> error + 'f list" where
  "precompute_R_body fl theta k R =
     bind_err (f_of_int fl k) (\<lambda>kf.
     bind_err (f_tan fl (f_mul fl kf theta)) (\<lambda>t.
     bind_err (f_div fl (f_mul fl (f_lit fl 2) t) (f_sub fl (SQRT3 fl) t)) (\<lambda>r.
     py_setitem R k r)))"

fun precompute_R_loop :: "'f float_ops \<Rightarrow> 'f \<Rightarrow> int list \<Rightarrow> 'f list \<Rightarrow> error + 'f list" where
  "precompute_R_loop fl theta [] R = Inr R"
| "precompute_R_loop fl theta (k # ks) R =
     (case precompute_R_body fl theta k R of
        Inl e \<Rightarrow> Inl e
      | Inr R' \<Rightarrow> precompute_R_loop fl theta ks R')"

definition precompute_R :: "'f float_ops \<Rightarrow> int \<Rightarrow> error + ('f option \<times> 'f list)" where
  "precompute_R fl n =
     (if n \<le> 0 then Inr (None, [])
      else
        bind_err (f_of_int fl (n + 1)) (\<lambda>m.
        bind_err (f_div fl (f_pi fl) (f_mul fl (f_lit fl 3) m)) (\<lambda>theta.
        bind_err (precompute_R_loop fl theta [1..n] (replicate (nat (n + 1)) (f_lit fl 0))) (\<lambda>R.
        Inr (Some theta, R)))))"

subsection \<open>Counter: \<open>d_angle_fast\<close>\<close>

text \<open>
  \<^verbatim>\<open>
  def d_angle_fast(n: int, tol: float = 1e-12) -> int:
      if n <= 0:
          return 0
      theta, R = precompute_R(n)
      count = 0
      for i in range(1, n + 1):
          Ri = R[i]
          for j in range(1, n + 1):
              r_target = 1.0 / (Ri * R[j])
              if r_target <= 0.0:
                  continue
              t = (r_target * SQRT3) / (2.0 + r_target)
              if t <= 0.0:
                  continue
              x = math.atan(t)
              k = int(round(x / theta))
              if 1 <= k <= n:
                  prod = Ri * R[j] * R[k]
                  if abs(prod - 1.0) <= tol:
                      count += 1
      return count
  \<close>
  The body of the inner loop takes the running \<open>count\<close> and returns the new one.
\<close>

definition d_angle_fast_body ::
  "'f float_ops \<Rightarrow> int \<Rightarrow> 'f \<Rightarrow> 'f option \<Rightarrow> 'f list \<Rightarrow> 'f \<Rightarrow> int \<Rightarrow> int \<Rightarrow> error + int" where
  "d_angle_fast_body fl n tol theta R Ri j count =
     bind_err (py_getitem R j) (\<lambda>Rj.
     bind_err (f_div fl (f_lit fl 1) (f_mul fl Ri Rj)) (\<lambda>r_target.
       if f_le fl r_target (f_lit fl 0) then Inr count
       else
         bind_err (f_div fl (f_mul fl r_target (SQRT3 fl)) (f_add fl (f_lit fl 2) r_target)) (\<lambda>t.
           if f_le fl t (f_lit fl 0) then Inr count
           else
             bind_err (py_truediv fl (f_atan fl t) theta) (\<lambda>q.
             bind_err (f_round fl q) (\<lambda>k.
               if 1 \<le> k \<and> k \<le> n then
                 bind_err (py_getitem R j) (\<lambda>Rj'.
                 bind_err (py_getitem R k) (\<lambda>Rk.
                   if f_le fl (f_abs fl (f_sub fl (f_mul fl (f_mul fl Ri Rj') Rk) (f_lit fl 1))) tol
                   then Inr (count + 1)
                   else Inr count))
               else Inr count)))))"

fun d_angle_fast_inner ::
  "'f float_ops \<Rightarrow> int \<Rightarrow> 'f \<Rightarrow> 'f option \<Rightarrow> 'f list \<Rightarrow> 'f \<Rightarrow> int list \<Rightarrow> int \<Rightarrow> error + int" where
  "d_angle_fast_inner fl n tol theta R Ri [] count = Inr count"
| "d_angle_fast_inner fl n tol theta R Ri (j # js) count =
     (case d_angle_fast_body fl n tol theta R Ri j count of
        Inl e \<Rightarrow> Inl e
      | Inr count' \<Rightarrow> d_angle_fast_inner fl n tol theta R Ri js count')"

fun d_angle_fast_outer ::
  "'f float_ops \<Rightarrow> int \<Rightarrow> 'f \<Rightarrow> 'f option \<Rightarrow> 'f list \<Rightarrow> int list \<Rightarrow> int \<Rightarrow> error + int" where
  "d_angle_fast_outer fl n tol theta R [] count = Inr count"
| "d_angle_fast_outer fl n tol theta R (i # is) count =
     (case py_getitem R i of
        Inl e \<Rightarrow> Inl e
      | Inr Ri \<Rightarrow>
          (case d_angle_fast_inner fl n tol theta R Ri [1..n] count of
             Inl e \<Rightarrow> Inl e
           | Inr count' \<Rightarrow> d_angle_fast_outer fl n tol theta R is count'))"

definition d_angle_fast :: "'f float_ops \<Rightarrow> int \<Rightarrow> 'f \<Rightarrow> error + int" where
  "d_angle_fast fl n tol =
     (if n \<le> 0 then Inr 0
      else
        bind_err (precompute_R fl n) (\<lambda>(theta, R).
        d_angle_fast_outer fl n tol theta R [1..n] 0))"

subsection \<open>Enumerator: \<open>list_solutions\<close>\<close>

text \<open>
  \<^verbatim>\<open>
  def list_solutions(n: int, tol: float = 1e-12):
      if n <= 0:
          return []
      theta, R = precompute_R(n)
      sols = []
      for i in range(1, n + 1):
          Ri = R[i]
          for j in range(1, n + 1):
              r_target = 1.0 / (Ri * R[j])
              if r_target <= 0.0:
                  continue
              t = (r_target * SQRT3) / (2.0 + r_target)
              if t <= 0.0:
                  continue
              x = math.atan(t)
              k = int(round(x / theta))
              if 1 <= k <= n:
                  prod = Ri * R[j] * R[k]
                  if abs(prod - 1.0) <= tol:
                      sols.append((i, j, k))
      return sols
  \<close>
  Transcribed from its own lines, independently of the Counter.
\<close>

type_synonym triple = "int \<times> int \<times> int"

definition list_solutions_body ::
  "'f float_ops \<Rightarrow> int \<Rightarrow> 'f \<Rightarrow> 'f option \<Rightarrow> 'f list \<Rightarrow> 'f \<Rightarrow> int \<Rightarrow> int \<Rightarrow> triple list
     \<Rightarrow> error + triple list" where
  "list_solutions_body fl n tol theta R Ri i j sols =
     bind_err (py_getitem R j) (\<lambda>Rj.
     bind_err (f_div fl (f_lit fl 1) (f_mul fl Ri Rj)) (\<lambda>r_target.
       if f_le fl r_target (f_lit fl 0) then Inr sols
       else
         bind_err (f_div fl (f_mul fl r_target (SQRT3 fl)) (f_add fl (f_lit fl 2) r_target)) (\<lambda>t.
           if f_le fl t (f_lit fl 0) then Inr sols
           else
             bind_err (py_truediv fl (f_atan fl t) theta) (\<lambda>q.
             bind_err (f_round fl q) (\<lambda>k.
               if 1 \<le> k \<and> k \<le> n then
                 bind_err (py_getitem R j) (\<lambda>Rj'.
                 bind_err (py_getitem R k) (\<lambda>Rk.
                   if f_le fl (f_abs fl (f_sub fl (f_mul fl (f_mul fl Ri Rj') Rk) (f_lit fl 1))) tol
                   then Inr (sols @ [(i, j, k)])
                   else Inr sols))
               else Inr sols)))))"

fun list_solutions_inner ::
  "'f float_ops \<Rightarrow> int \<Rightarrow> 'f \<Rightarrow> 'f option \<Rightarrow> 'f list \<Rightarrow> 'f \<Rightarrow> int \<Rightarrow> int list \<Rightarrow> triple list
     \<Rightarrow> error + triple list" where
  "list_solutions_inner fl n tol theta R Ri i [] sols = Inr sols"
| "list_solutions_inner fl n tol theta R Ri i (j # js) sols =
     (case list_solutions_body fl n tol theta R Ri i j sols of
        Inl e \<Rightarrow> Inl e
      | Inr sols' \<Rightarrow> list_solutions_inner fl n tol theta R Ri i js sols')"

fun list_solutions_outer ::
  "'f float_ops \<Rightarrow> int \<Rightarrow> 'f \<Rightarrow> 'f option \<Rightarrow> 'f list \<Rightarrow> int list \<Rightarrow> triple list
     \<Rightarrow> error + triple list" where
  "list_solutions_outer fl n tol theta R [] sols = Inr sols"
| "list_solutions_outer fl n tol theta R (i # is) sols =
     (case py_getitem R i of
        Inl e \<Rightarrow> Inl e
      | Inr Ri \<Rightarrow>
          (case list_solutions_inner fl n tol theta R Ri i [1..n] sols of
             Inl e \<Rightarrow> Inl e
           | Inr sols' \<Rightarrow> list_solutions_outer fl n tol theta R is sols'))"

definition list_solutions :: "'f float_ops \<Rightarrow> int \<Rightarrow> 'f \<Rightarrow> error + triple list" where
  "list_solutions fl n tol =
     (if n \<le> 0 then Inr []
      else
        bind_err (precompute_R fl n) (\<lambda>(theta, R).
        list_solutions_outer fl n tol theta R [1..n] []))"

subsection \<open>Exact arithmetic as one instance of the operations\<close>

text \<open>
  The operations read over the real numbers, with no rounding: division raises on a zero
  divisor, the tangent raises where it is undefined (\<open>cos x = 0\<close>), and \<open>round\<close> is
  Python's round-half-to-even.
\<close>

definition py_round :: "real \<Rightarrow> int" where
  "py_round x =
     (let f = \<lfloor>x\<rfloor>; d = x - of_int f
      in if d < 1 / 2 then f else if 1 / 2 < d then f + 1 else if even f then f else f + 1)"

definition exact_ops :: "real float_ops" where
  "exact_ops =
     \<lparr> f_lit = of_int,
       f_of_int = (\<lambda>k. Inr (of_int k)),
       f_pi = pi,
       f_sqrt = sqrt,
       f_tan = (\<lambda>x. if cos x = 0 then Inl ValueError else Inr (tan x)),
       f_atan = arctan,
       f_add = (+),
       f_sub = (-),
       f_mul = (*),
       f_div = (\<lambda>x y. if y = 0 then Inl ZeroDivisionError else Inr (x / y)),
       f_abs = abs,
       f_le = (\<le>),
       f_round = (\<lambda>x. Inr (py_round x)) \<rparr>"

subsection \<open>Vocabulary of the properties\<close>

text \<open>
  The Ceva check the spec states for a triple, \<open>|R[i]\<cdot>R[j]\<cdot>R[k] - 1| \<le> tol\<close>, computed
  with the program's own operations on the table \<open>R\<close>; it fails when an index is out of range.
\<close>

definition ceva_ok :: "'f float_ops \<Rightarrow> 'f \<Rightarrow> 'f list \<Rightarrow> int \<Rightarrow> int \<Rightarrow> int \<Rightarrow> bool" where
  "ceva_ok fl tol R i j k =
     (bind_err (py_getitem R i) (\<lambda>Ri.
      bind_err (py_getitem R j) (\<lambda>Rj.
      bind_err (py_getitem R k) (\<lambda>Rk.
        Inr (f_le fl (f_abs fl (f_sub fl (f_mul fl (f_mul fl Ri Rj) Rk) (f_lit fl 1))) tol))))
      = Inr True)"

definition pair_of :: "triple \<Rightarrow> int \<times> int" where
  "pair_of t = (fst t, fst (snd t))"

text \<open>The lexicographic order of pairs \<open>(i, j)\<close>: the order in which the loops visit them.\<close>

definition pair_less :: "int \<times> int \<Rightarrow> int \<times> int \<Rightarrow> bool" where
  "pair_less p q = (fst p < fst q \<or> (fst p = fst q \<and> snd p < snd q))"

subsection \<open>b-file writer: \<open>write_bfile\<close>\<close>

text \<open>
  \<^verbatim>\<open>
  def write_bfile(vals, path):
      with open(path, "w", encoding="utf-8") as f:
          for n, v in enumerate(vals, start=1):
              f.write(f"{n} {v}\n")
  \<close>
  The values are the Counter's results, Python ints. \<open>str_int\<close> is the decimal rendering
  of an int by an f-string: a minus sign for a negative number, then the digits, most
  significant first, with no leading zero.
\<close>

definition digit_char :: "nat \<Rightarrow> char" where
  "digit_char d = char_of (48 + d)"

fun str_nat :: "nat \<Rightarrow> string" where
  "str_nat n = (if n < 10 then [digit_char n] else str_nat (n div 10) @ [digit_char (n mod 10)])"

declare str_nat.simps [simp del]

definition str_int :: "int \<Rightarrow> string" where
  "str_int v = (if v < 0 then CHR ''-'' # str_nat (nat (- v)) else str_nat (nat v))"

definition newline :: char where
  "newline = CHR 0x0A"

definition format_line :: "int \<Rightarrow> int \<Rightarrow> string" where
  "format_line n v = str_int n @ '' '' @ str_int v @ [newline]"

text \<open>
  The loop over \<open>enumerate(vals, start=1)\<close>: \<open>n\<close> is the running index, the last argument
  the content written to the file so far.
\<close>

fun write_lines :: "int \<Rightarrow> int list \<Rightarrow> string \<Rightarrow> string" where
  "write_lines n [] f = f"
| "write_lines n (v # vs) f = write_lines (n + 1) vs (f @ format_line n v)"

text \<open>
  The file system: the content of each file, and which paths can be opened for writing.
  \<open>open(path, "w")\<close> raises OSError on a path that cannot be, and otherwise truncates.
\<close>

record filesystem =
  files :: "string \<rightharpoonup> string"
  writable :: "string \<Rightarrow> bool"

definition write_bfile :: "int list \<Rightarrow> string \<Rightarrow> filesystem \<Rightarrow> error + filesystem" where
  "write_bfile vals path fs =
     (if writable fs path
      then Inr (fs\<lparr>files := (files fs)(path \<mapsto> write_lines 1 vals [])\<rparr>)
      else Inl OSError)"

subsection \<open>Reading a b-file back\<close>

text \<open>
  Modelled from the spec: a reader of the b-file format (the repository has none). The text
  is cut at each newline; a line is \<open><n> <a(n)>\<close>, two decimal integers separated by
  one space; the values are the second fields.
\<close>

fun split_lines :: "string \<Rightarrow> string \<Rightarrow> string list" where
  "split_lines [] cur = (if cur = [] then [] else [cur])"
| "split_lines (c # cs) cur =
     (if c = newline then cur # split_lines cs [] else split_lines cs (cur @ [c]))"

definition is_digit :: "char \<Rightarrow> bool" where
  "is_digit c = (48 \<le> (of_char c :: nat) \<and> (of_char c :: nat) \<le> 57)"

definition parse_nat :: "string \<Rightarrow> nat option" where
  "parse_nat s =
     (if s \<noteq> [] \<and> list_all is_digit s
      then Some (foldl (\<lambda>a c. 10 * a + (of_char c - 48)) 0 s)
      else None)"

definition parse_int :: "string \<Rightarrow> int option" where
  "parse_int s =
     (case s of
        [] \<Rightarrow> None
      | c # r \<Rightarrow>
          if c = CHR ''-'' then map_option (\<lambda>m. - int m) (parse_nat r)
          else map_option int (parse_nat s))"

definition parse_line :: "string \<Rightarrow> (int \<times> int) option" where
  "parse_line l =
     (let a = takeWhile (\<lambda>c. c \<noteq> CHR '' '') l; b = drop (length a + 1) l
      in case parse_int a of
           None \<Rightarrow> None
         | Some n \<Rightarrow> (case parse_int b of None \<Rightarrow> None | Some v \<Rightarrow> Some (n, v)))"

fun parse_lines :: "string list \<Rightarrow> (int \<times> int) list option" where
  "parse_lines [] = Some []"
| "parse_lines (l # ls) =
     (case parse_line l of
        None \<Rightarrow> None
      | Some p \<Rightarrow> (case parse_lines ls of None \<Rightarrow> None | Some ps \<Rightarrow> Some (p # ps)))"

definition parse_bfile :: "string \<Rightarrow> (int \<times> int) list option" where
  "parse_bfile text = parse_lines (split_lines text [])"

subsection \<open>RuleEvaluator: \<open>a_rule\<close>\<close>

text \<open>
  \<^verbatim>\<open>
  def a_rule(n: int) -> int:
      if n % 2 == 0:
          return 0
      return (3*n - 2) + (12 if n % 10 == 9 else 0)
  \<close>
  Python's \<open>%\<close> on integers with a positive modulus is the floor remainder, which is
  \<open>mod\<close> on \<open>int\<close>.
\<close>

definition a_rule :: "int \<Rightarrow> int" where
  "a_rule n = (if n mod 2 = 0 then 0 else (3 * n - 2) + (if n mod 10 = 9 then 12 else 0))"

subsection \<open>Auxiliary notions\<close>

text \<open>What the Counter returns when the Enumerator's outcome is \<open>r\<close>: the same exception, or the length.\<close>

definition count_of :: "error + triple list \<Rightarrow> error + int" where
  "count_of r = (case r of Inl e \<Rightarrow> Inl e | Inr sols \<Rightarrow> Inr (int (length sols)))"

text \<open>A triple passed the verification step: its \<open>k\<close> is in range and the Ceva check holds.\<close>

definition accepted :: "'f float_ops \<Rightarrow> int \<Rightarrow> 'f \<Rightarrow> 'f list \<Rightarrow> triple \<Rightarrow> bool" where
  "accepted fl n tol R t =
     (1 \<le> snd (snd t) \<and> snd (snd t) \<le> n \<and> ceva_ok fl tol R (fst t) (fst (snd t)) (snd (snd t)))"

text \<open>
  The b-file as the spec describes it: line \<open>i\<close> (counted from 1) is \<open><i> <vals[i-1]>\<close>, and
  the text is these lines, each followed by a newline.
\<close>

definition bfile_line :: "int list \<Rightarrow> nat \<Rightarrow> string" where
  "bfile_line vals i = str_int (int i) @ '' '' @ str_int (vals ! (i - 1))"

definition bfile_text :: "int list \<Rightarrow> string" where
  "bfile_text vals = concat (map (\<lambda>i. bfile_line vals i @ [newline]) [1..<Suc (length vals)])"


text \<open>A file system with no file, in which every path can be written.\<close>

definition empty_fs :: filesystem where
  "empty_fs = \<lparr> files = Map.empty, writable = (\<lambda>_. True) \<rparr>"

section \<open>Supporting lemmas\<close>

subsection \<open>The error monad and the count of an enumeration\<close>

lemma bind_err_simps [simp]:
  "bind_err (Inl e) f = Inl e" "bind_err (Inr x) f = f x"
  by (simp_all add: bind_err_def)

lemma bind_err_Inr_iff:
  "bind_err m f = Inr y \<longleftrightarrow> (\<exists>x. m = Inr x \<and> f x = Inr y)"
  by (cases m) simp_all

lemma count_of_simps [simp]:
  "count_of (Inl e) = Inl e" "count_of (Inr sols) = Inr (int (length sols))"
  by (simp_all add: count_of_def)

lemma count_of_bind: "count_of (bind_err m f) = bind_err m (\<lambda>x. count_of (f x))"
  by (cases m) simp_all

lemma count_of_if: "count_of (if b then x else y) = (if b then count_of x else count_of y)"
  by simp

lemma body_count:
  "d_angle_fast_body fl n tol theta R Ri j (int (length sols)) =
     count_of (list_solutions_body fl n tol theta R Ri i j sols)"
  unfolding d_angle_fast_body_def list_solutions_body_def
  by (simp add: count_of_bind count_of_if add.commute cong: if_cong)

lemma inner_count:
  "d_angle_fast_inner fl n tol theta R Ri js (int (length sols)) =
     count_of (list_solutions_inner fl n tol theta R Ri i js sols)"
proof (induction js arbitrary: sols)
  case Nil
  show ?case by simp
next
  case (Cons j js)
  show ?case
  proof (cases "list_solutions_body fl n tol theta R Ri i j sols")
    case (Inl e)
    then show ?thesis using body_count [of fl n tol theta R Ri j sols i] by simp
  next
    case (Inr sols')
    then show ?thesis
      using body_count [of fl n tol theta R Ri j sols i] Cons.IH [of sols'] by simp
  qed
qed

lemma outer_count:
  "d_angle_fast_outer fl n tol theta R is (int (length sols)) =
     count_of (list_solutions_outer fl n tol theta R is sols)"
proof (induction "is" arbitrary: sols)
  case Nil
  show ?case by simp
next
  case (Cons i "is")
  show ?case
  proof (cases "py_getitem R i")
    case (Inl e)
    then show ?thesis by simp
  next
    case Ri: (Inr Ri)
    show ?thesis
    proof (cases "list_solutions_inner fl n tol theta R Ri i [1..n] sols")
      case (Inl e)
      then show ?thesis using Ri inner_count [of fl n tol theta R Ri "[1..n]" sols i] by simp
    next
      case (Inr sols')
      then show ?thesis
        using Ri inner_count [of fl n tol theta R Ri "[1..n]" sols i] Cons.IH [of sols'] by simp
    qed
  qed
qed

lemma d_angle_fast_count:
  "d_angle_fast fl n tol = count_of (list_solutions fl n tol)"
proof (cases "n \<le> 0")
  case True
  then show ?thesis by (simp add: d_angle_fast_def list_solutions_def)
next
  case False
  show ?thesis
  proof (cases "precompute_R fl n")
    case (Inl e)
    with False show ?thesis by (simp add: d_angle_fast_def list_solutions_def)
  next
    case (Inr p)
    obtain theta R where p: "p = (theta, R)" by (cases p)
    show ?thesis
      using False Inr p outer_count [of fl n tol theta R "[1..n]" "[]"]
      by (simp add: d_angle_fast_def list_solutions_def)
  qed
qed

subsection \<open>What the Enumerator's loops append\<close>

lemma body_appends:
  assumes "list_solutions_body fl n tol theta R Ri i j sols = Inr sols'"
    and "py_getitem R i = Inr Ri"
  shows "sols' = sols \<or> (\<exists>k. sols' = sols @ [(i, j, k)] \<and> accepted fl n tol R (i, j, k))"
  using assms unfolding list_solutions_body_def accepted_def ceva_ok_def
  by (auto simp: bind_err_Inr_iff split: if_splits)

lemma inner_appends:
  assumes "list_solutions_inner fl n tol theta R Ri i js sols = Inr sols'"
    and "py_getitem R i = Inr Ri"
  shows "\<exists>new. sols' = sols @ new \<and> subseq (map pair_of new) (map (Pair i) js)
           \<and> (\<forall>t \<in> set new. accepted fl n tol R t)"
  using assms
proof (induction js arbitrary: sols)
  case Nil
  then show ?case by simp
next
  case (Cons j js)
  from Cons.prems(1) obtain mid where
    b: "list_solutions_body fl n tol theta R Ri i j sols = Inr mid" and
    r: "list_solutions_inner fl n tol theta R Ri i js mid = Inr sols'"
    by (auto split: sum.splits)
  from Cons.IH [OF r Cons.prems(2)] obtain new where
    new: "sols' = mid @ new" "subseq (map pair_of new) (map (Pair i) js)"
         "\<forall>t \<in> set new. accepted fl n tol R t"
    by blast
  from body_appends [OF b Cons.prems(2)] show ?case
  proof
    assume "mid = sols"
    with new show ?thesis by auto
  next
    assume "\<exists>k. mid = sols @ [(i, j, k)] \<and> accepted fl n tol R (i, j, k)"
    then obtain k where k: "mid = sols @ [(i, j, k)]" "accepted fl n tol R (i, j, k)" by blast
    have "sols' = sols @ ((i, j, k) # new)" using new(1) k(1) by simp
    moreover have "subseq (map pair_of ((i, j, k) # new)) (map (Pair i) (j # js))"
      using new(2) by (simp add: pair_of_def)
    moreover have "\<forall>t \<in> set ((i, j, k) # new). accepted fl n tol R t"
      using new(3) k(2) by simp
    ultimately show ?thesis by blast
  qed
qed

lemma outer_appends:
  assumes "list_solutions_outer fl n tol theta R is sols = Inr sols'"
  shows "\<exists>new. sols' = sols @ new \<and> subseq (map pair_of new) (List.product is [1..n])
           \<and> (\<forall>t \<in> set new. accepted fl n tol R t)"
  using assms
proof (induction "is" arbitrary: sols)
  case Nil
  then show ?case by simp
next
  case (Cons i "is")
  from Cons.prems obtain Ri mid where
    Ri: "py_getitem R i = Inr Ri" and
    a: "list_solutions_inner fl n tol theta R Ri i [1..n] sols = Inr mid" and
    r: "list_solutions_outer fl n tol theta R is mid = Inr sols'"
    by (auto split: sum.splits)
  from inner_appends [OF a Ri] obtain new1 where
    n1: "mid = sols @ new1" "subseq (map pair_of new1) (map (Pair i) [1..n])"
        "\<forall>t \<in> set new1. accepted fl n tol R t"
    by blast
  from Cons.IH [OF r] obtain new2 where
    n2: "sols' = mid @ new2" "subseq (map pair_of new2) (List.product is [1..n])"
        "\<forall>t \<in> set new2. accepted fl n tol R t"
    by blast
  have "sols' = sols @ (new1 @ new2)" using n1(1) n2(1) by simp
  moreover have "subseq (map pair_of (new1 @ new2)) (List.product (i # is) [1..n])"
    using list_emb_append_mono [OF n1(2) n2(2)] by simp
  moreover have "\<forall>t \<in> set (new1 @ new2). accepted fl n tol R t"
    using n1(3) n2(3) by auto
  ultimately show ?case by blast
qed

lemma list_solutions_structure:
  assumes "list_solutions fl n tol = Inr sols" and "0 < n"
  shows "\<exists>theta R. precompute_R fl n = Inr (theta, R)
           \<and> subseq (map pair_of sols) (List.product [1..n] [1..n])
           \<and> (\<forall>t \<in> set sols. accepted fl n tol R t)"
proof -
  from assms obtain theta R where
    p: "precompute_R fl n = Inr (theta, R)" and
    l: "list_solutions_outer fl n tol theta R [1..n] [] = Inr sols"
    by (auto simp: list_solutions_def bind_err_Inr_iff)
  from outer_appends [OF l] p show ?thesis by auto
qed

lemma subseq_set_mono: "subseq xs ys \<Longrightarrow> set xs \<subseteq> set ys"
  by (induction rule: list_emb.induct) auto

lemma subseq_sorted_wrt: "subseq xs ys \<Longrightarrow> sorted_wrt P ys \<Longrightarrow> sorted_wrt P xs"
proof (induction rule: list_emb.induct)
  case (list_emb_Nil ys)
  then show ?case by simp
next
  case (list_emb_Cons xs ys y)
  then show ?case by simp
next
  case (list_emb_Cons2 x y xs ys)
  then show ?case using subseq_set_mono [of xs ys] by auto
qed

lemma subseq_distinct: "subseq xs ys \<Longrightarrow> distinct ys \<Longrightarrow> distinct xs"
proof (induction rule: list_emb.induct)
  case (list_emb_Nil ys)
  then show ?case by simp
next
  case (list_emb_Cons xs ys y)
  then show ?case by simp
next
  case (list_emb_Cons2 x y xs ys)
  then show ?case using subseq_set_mono [of xs ys] by auto
qed

lemma sorted_wrt_product:
  "sorted_wrt (<) xs \<Longrightarrow> sorted_wrt (<) ys \<Longrightarrow> sorted_wrt pair_less (List.product xs ys)"
proof (induction xs)
  case Nil
  then show ?case by simp
next
  case (Cons x xs)
  have "sorted_wrt pair_less (map (Pair x) ys)"
    using Cons.prems(2) by (simp add: sorted_wrt_map pair_less_def)
  moreover have "sorted_wrt pair_less (List.product xs ys)"
    using Cons by simp
  moreover have "\<forall>p \<in> set (map (Pair x) ys). \<forall>q \<in> set (List.product xs ys). pair_less p q"
    using Cons.prems(1) by (auto simp: pair_less_def)
  ultimately show ?case by (simp add: sorted_wrt_append)
qed

lemma pairs_in_order:
  assumes "subseq (map pair_of sols) (List.product [1..n] [1..n])"
  shows "sorted_wrt (\<lambda>s t. pair_less (pair_of s) (pair_of t)) sols"
    and "distinct (map pair_of sols)"
    and "int (length sols) \<le> n * n"
proof -
  have "sorted_wrt pair_less (map pair_of sols)"
    using subseq_sorted_wrt [OF assms] sorted_wrt_product [of "[1..n]" "[1..n]"] by simp
  then show "sorted_wrt (\<lambda>s t. pair_less (pair_of s) (pair_of t)) sols"
    by (simp add: sorted_wrt_map)
  show "distinct (map pair_of sols)"
    using subseq_distinct [OF assms] by (simp add: distinct_product)
  have "length (map pair_of sols) \<le> length (List.product [1..n] [1..n])"
    using assms by (rule list_emb_length)
  then have "length sols \<le> nat n * nat n" by simp
  then have "int (length sols) \<le> int (nat n * nat n)" by (simp only: of_nat_le_iff)
  also have "\<dots> \<le> n * n" by (cases "0 \<le> n") (simp_all add: nat_mult_distrib)
  finally show "int (length sols) \<le> n * n" .
qed

subsection \<open>Exact arithmetic: evaluation at \<open>n = 1\<close>\<close>

lemma exact_ops_simps [simp]:
  "f_lit exact_ops = of_int"
  "f_of_int exact_ops k = Inr (of_int k)"
  "f_pi exact_ops = pi"
  "f_sqrt exact_ops = sqrt"
  "f_tan exact_ops x = (if cos x = 0 then Inl ValueError else Inr (tan x))"
  "f_atan exact_ops = arctan"
  "f_add exact_ops = (+)"
  "f_sub exact_ops = (-)"
  "f_mul exact_ops = (*)"
  "f_div exact_ops x y = (if y = 0 then Inl ZeroDivisionError else Inr (x / y))"
  "f_abs exact_ops = abs"
  "f_le exact_ops = (\<le>)"
  "f_round exact_ops x = Inr (py_round x)"
  by (simp_all add: exact_ops_def)

lemma SQRT3_exact [simp]: "SQRT3 exact_ops = sqrt 3"
  by (simp add: SQRT3_def)

lemma py_round_of_int [simp]: "py_round (of_int k) = k"
  by (simp add: py_round_def)

lemma py_round_one [simp]: "py_round 1 = 1"
  using py_round_of_int [of 1] by simp

lemma sqrt3_sq: "sqrt 3 * sqrt 3 = (3::real)"
  by simp

lemma R_one: "2 * (1 / sqrt 3) / (sqrt 3 - 1 / sqrt 3) = (1::real)"
proof -
  have "sqrt 3 - 1 / sqrt 3 = (sqrt 3 * sqrt 3 - 1) / sqrt 3"
    by (simp add: field_simps)
  also have "\<dots> = 2 / sqrt 3" by simp
  finally show ?thesis by simp
qed

lemma arctan_30: "arctan (sqrt 3 / 3) = pi / 6"
proof (rule arctan_unique)
  show "- (pi / 2) < pi / 6" using pi_gt_zero by linarith
  show "pi / 6 < pi / 2" using pi_gt_zero by linarith
  have "sqrt 3 / 3 = 1 / sqrt 3" using sqrt3_sq by (simp add: field_simps)
  then show "tan (pi / 6) = sqrt 3 / 3" by (simp add: tan_30)
qed

lemma exact_table_1: "precompute_R exact_ops 1 = Inr (Some (pi / 6), [0, 1])"
proof -
  have c: "cos (pi / 6) \<noteq> 0" by (simp add: cos_30)
  have d: "sqrt 3 - 1 / sqrt 3 \<noteq> 0"
    using R_one by auto
  have b: "precompute_R_body exact_ops (pi / 6) 1 [0, 0] = Inr [0, 1]"
    using c d R_one by (simp add: precompute_R_body_def tan_30 py_setitem_def)
  have r: "replicate (nat 2) (0::real) = [0, 0]" by (simp add: numeral_2_eq_2)
  show ?thesis
    using b r by (simp add: precompute_R_def)
qed

lemma exact_sols_1:
  assumes "0 \<le> tol"
  shows "list_solutions exact_ops 1 tol = Inr [(1, 1, 1)]"
proof -
  have g: "py_getitem [0, 1::real] 1 = Inr 1" by (simp add: py_getitem_def)
  have b: "list_solutions_body exact_ops 1 tol (Some (pi / 6)) [0, 1] 1 1 1 [] = Inr [(1, 1, 1)]"
    using assms g by (simp add: list_solutions_body_def py_truediv_def arctan_30)
  show ?thesis
    using b g exact_table_1 by (simp add: list_solutions_def)
qed

subsection \<open>Exact arithmetic: evaluation at \<open>n = 3\<close>\<close>

text \<open>
  With \<open>\<theta> = \<pi> / 12\<close> the table is \<open>R[1] = (\<surd>3 - 1) / 2\<close>, \<open>R[2] = 1\<close>,
  \<open>R[3] = \<surd>3 + 1\<close>, and \<open>R[1] \<cdot> R[3] = 1\<close>: seven of the nine pairs have a solution.
\<close>

lemma tan_15: "tan (pi / 12) = 2 - sqrt 3"
proof -
  have "tan (pi / 12) = sin (2 * (pi / 12)) / (cos (2 * (pi / 12)) + 1)" by (rule tan_half)
  also have "\<dots> = (1 / 2) / (sqrt 3 / 2 + 1)" by (simp add: sin_30 cos_30)
  also have "\<dots> = 1 / (sqrt 3 + 2)" by (simp add: field_simps)
  also have "\<dots> = 2 - sqrt 3"
  proof -
    have "(2 - sqrt 3) * (sqrt 3 + 2) = 1" by (simp add: algebra_simps)
    moreover have "sqrt 3 + 2 \<noteq> 0" using real_sqrt_ge_zero [of 3] by linarith
    ultimately show ?thesis by (simp add: field_simps)
  qed
  finally show ?thesis .
qed

lemma exact_pair_found:
  assumes Rj: "py_getitem R j = Inr Rj" and Rk: "py_getitem R k = Inr Rk"
    and p: "Ri * Rj = p" and pos: "0 < p"
    and tn: "tan (of_int k * th) = T" and T: "(1 / p) * sqrt 3 / (2 + 1 / p) = T"
    and th: "0 < th" and lt: "of_int k * th < pi / 2"
    and k: "1 \<le> k" "k \<le> n"
    and prod: "p * Rk = 1" and tol: "0 \<le> tol"
  shows "list_solutions_body exact_ops n tol (Some th) R Ri i j sols = Inr (sols @ [(i, j, k)])"
proof -
  have r: "0 < 1 / p" using pos by simp
  have d: "0 < 2 + 1 / p" using r by linarith
  have "0 < (1 / p) * sqrt 3 / (2 + 1 / p)" using r d by simp
  then have t: "0 < T" by (simp only: T)
  have "0 < of_int k * th" using k(1) th by simp
  then have "- (pi / 2) < of_int k * th" using pi_gt_zero by linarith
  then have a: "arctan T = of_int k * th" using lt tn by (rule arctan_unique)
  have q: "arctan T / th = of_int k" using a th by simp
  have s1: "f_div exact_ops (f_lit exact_ops 1) (f_mul exact_ops Ri Rj) = Inr (1 / p)"
    using p pos by simp
  have s2: "f_div exact_ops (f_mul exact_ops (1 / p) (SQRT3 exact_ops))
              (f_add exact_ops (f_lit exact_ops 2) (1 / p)) = Inr T"
    using d T by simp
  have s3: "py_truediv exact_ops (f_atan exact_ops T) (Some th) = Inr (of_int k)"
    using th q by (simp add: py_truediv_def)
  have s4: "f_round exact_ops (of_int k) = Inr k" by simp
  have s5: "f_le exact_ops (f_abs exact_ops (f_sub exact_ops
              (f_mul exact_ops (f_mul exact_ops Ri Rj) Rk) (f_lit exact_ops 1))) tol"
    using p prod tol by simp
  have n1: "\<not> f_le exact_ops (1 / p) (f_lit exact_ops 0)" using r by simp
  have n2: "\<not> f_le exact_ops T (f_lit exact_ops 0)" using t by simp
  show ?thesis
    unfolding list_solutions_body_def
    by (simp only: Rj Rk s1 s2 s3 s4 s5 n1 n2 k bind_err_simps if_True if_False simp_thms)
qed

lemma exact_pair_rejected:
  assumes Rj: "py_getitem R j = Inr Rj"
    and p: "Ri * Rj = p" and pos: "0 < p" and th: "th \<noteq> 0"
    and far: "\<And>k. 1 \<le> k \<Longrightarrow> k \<le> n \<Longrightarrow> \<exists>Rk. py_getitem R k = Inr Rk \<and> tol < \<bar>p * Rk - 1\<bar>"
  shows "list_solutions_body exact_ops n tol (Some th) R Ri i j sols = Inr sols"
proof -
  define T where "T = (1 / p) * sqrt 3 / (2 + 1 / p)"
  define q where "q = arctan T / th"
  define k where "k = py_round q"
  have r: "0 < 1 / p" using pos by simp
  have d: "0 < 2 + 1 / p" using r by linarith
  have t: "0 < T" unfolding T_def using r d by simp
  have s1: "f_div exact_ops (f_lit exact_ops 1) (f_mul exact_ops Ri Rj) = Inr (1 / p)"
    using p pos by simp
  have s2: "f_div exact_ops (f_mul exact_ops (1 / p) (SQRT3 exact_ops))
              (f_add exact_ops (f_lit exact_ops 2) (1 / p)) = Inr T"
    using d by (simp add: T_def)
  have s3: "py_truediv exact_ops (f_atan exact_ops T) (Some th) = Inr q"
    using th by (simp add: py_truediv_def q_def)
  have s4: "f_round exact_ops q = Inr k" by (simp add: k_def)
  have n1: "\<not> f_le exact_ops (1 / p) (f_lit exact_ops 0)" using r by simp
  have n2: "\<not> f_le exact_ops T (f_lit exact_ops 0)" using t by simp
  show ?thesis
  proof (cases "1 \<le> k \<and> k \<le> n")
    case False
    show ?thesis
      unfolding list_solutions_body_def
      by (simp only: Rj s1 s2 s3 s4 n1 n2 False bind_err_simps if_True if_False simp_thms)
  next
    case True
    then obtain Rk where Rk: "py_getitem R k = Inr Rk" "tol < \<bar>p * Rk - 1\<bar>"
      using far [of k] by blast
    have s5: "\<not> f_le exact_ops (f_abs exact_ops (f_sub exact_ops
              (f_mul exact_ops (f_mul exact_ops Ri Rj) Rk) (f_lit exact_ops 1))) tol"
      using p Rk(2) by simp
    show ?thesis
      unfolding list_solutions_body_def
      by (simp only: Rj Rk(1) s1 s2 s3 s4 s5 n1 n2 True bind_err_simps if_True if_False simp_thms)
  qed
qed

lemma exact_R_entry:
  assumes "of_int k * th = x" and "cos x \<noteq> 0" and "tan x = t" and "sqrt 3 - t \<noteq> 0"
    and "2 * t / (sqrt 3 - t) = r" and "0 \<le> k" and "k < int (length R)"
  shows "precompute_R_body exact_ops th k R = Inr (R[nat k := r])"
  using assms by (simp add: precompute_R_body_def py_setitem_def)

lemma sqrt3_bounds: "1 < sqrt 3" "sqrt 3 < 2"
proof -
  have "sqrt 1 < sqrt 3" by simp
  then show "1 < sqrt 3" by simp
  show "sqrt 3 < 2" by (rule real_less_lsqrt) simp_all
qed

lemma div_eqI: "b \<noteq> 0 \<Longrightarrow> a = c * b \<Longrightarrow> a / b = (c::real)"
  by simp

lemma root3_poly:
  fixes a b s :: real
  assumes "s * s = 3" and "a = (s - 1) / 2" and "b = s + 1"
  shows "a * b = 1"
    and "b * s = 1 * (2 + b)"
    and "a * s = (2 - s) * (2 + a)"
    and "2 * (2 - s) = a * (s - (2 - s))"
    and "2 * 1 = b * (s - 1)"
  using assms(1) unfolding assms(2,3) by (simp_all add: field_simps)

lemma sqrt3_facts:
  fixes a b :: real
  assumes a: "a = (sqrt 3 - 1) / 2" and b: "b = sqrt 3 + 1"
  shows "a * b = 1" and "0 < a" and "a < 1 / 2" and "2 < b"
    and "(1 / a) * sqrt 3 / (2 + 1 / a) = 1"
    and "(1 / 1) * sqrt 3 / (2 + 1 / 1) = 1 / sqrt 3"
    and "(1 / b) * sqrt 3 / (2 + 1 / b) = 2 - sqrt 3"
    and "2 * (2 - sqrt 3) / (sqrt 3 - (2 - sqrt 3)) = a"
    and "2 * 1 / (sqrt 3 - 1) = b"
proof -
  have s: "sqrt 3 * sqrt 3 = 3" by simp
  note poly = root3_poly [OF s a b]
  show ab: "a * b = 1" by (rule poly(1))
  show a0: "0 < a" unfolding a using sqrt3_bounds by simp
  show "a < 1 / 2" unfolding a using sqrt3_bounds by simp
  show b2: "2 < b" unfolding b using sqrt3_bounds by simp
  have b0: "b \<noteq> 0" using b2 by simp
  have ia: "1 / a = b"
    by (rule div_eqI) (use a0 ab in \<open>simp_all add: mult.commute\<close>)
  have ib: "1 / b = a"
    by (rule div_eqI) (use b0 ab in simp_all)
  have nb: "2 + b \<noteq> 0" using b2 by simp
  have na: "2 + a \<noteq> 0" using a0 by simp
  have "b * sqrt 3 / (2 + b) = 1" using nb poly(2) by (rule div_eqI)
  then show "(1 / a) * sqrt 3 / (2 + 1 / a) = 1" by (simp only: ia)
  have "sqrt 3 / 3 = 1 / sqrt 3"
    using s by (simp add: field_simps)
  then show "(1 / 1) * sqrt 3 / (2 + 1 / 1) = 1 / sqrt 3" by simp
  have "a * sqrt 3 / (2 + a) = 2 - sqrt 3" using na poly(3) by (rule div_eqI)
  then show "(1 / b) * sqrt 3 / (2 + 1 / b) = 2 - sqrt 3" by (simp only: ib)
  have d1: "sqrt 3 - (2 - sqrt 3) \<noteq> 0" using sqrt3_bounds by linarith
  show "2 * (2 - sqrt 3) / (sqrt 3 - (2 - sqrt 3)) = a" using d1 poly(4) by (rule div_eqI)
  have d3: "sqrt 3 - 1 \<noteq> 0" using sqrt3_bounds by linarith
  show "2 * 1 / (sqrt 3 - 1) = b" using d3 poly(5) by (rule div_eqI)
qed

lemma cos_sector_nz: "0 < x \<Longrightarrow> x < pi / 2 \<Longrightarrow> cos x \<noteq> 0"
  using cos_gt_zero [of x] by simp

lemma exact_table_3:
  fixes a b :: real
  assumes a: "a = (sqrt 3 - 1) / 2" and b: "b = sqrt 3 + 1"
  shows "precompute_R exact_ops 3 = Inr (Some (pi / 12), [0, a, 1, b])"
proof -
  note f = sqrt3_facts [OF a b]
  have pz: "0 < pi" by (rule pi_gt_zero)
  have b1: "precompute_R_body exact_ops (pi / 12) 1 [0, 0, 0, 0] = Inr [0, a, 0, 0]"
  proof -
    have d: "sqrt 3 - (2 - sqrt 3) \<noteq> 0" using sqrt3_bounds by linarith
    have c: "cos (pi / 12) \<noteq> 0" using pz by (intro cos_sector_nz) linarith+
    have "precompute_R_body exact_ops (pi / 12) 1 [0, 0, 0, 0] = Inr ([0, 0, 0, 0][nat 1 := a])"
      by (rule exact_R_entry [where x = "pi / 12" and t = "2 - sqrt 3"])
         (use c d f(8) tan_15 in simp_all)
    then show ?thesis by simp
  qed
  have b2: "precompute_R_body exact_ops (pi / 12) 2 [0, a, 0, 0] = Inr [0, a, 1, 0]"
  proof -
    have d: "sqrt 3 - 1 / sqrt 3 \<noteq> 0" using R_one by auto
    have c: "cos (pi / 6) \<noteq> 0" by (simp add: cos_30)
    have "precompute_R_body exact_ops (pi / 12) 2 [0, a, 0, 0] = Inr ([0, a, 0, 0][nat 2 := 1])"
      by (rule exact_R_entry [where x = "pi / 6" and t = "1 / sqrt 3"])
         (use c d R_one tan_30 in simp_all)
    then show ?thesis by (simp add: numeral_2_eq_2)
  qed
  have b3: "precompute_R_body exact_ops (pi / 12) 3 [0, a, 1, 0] = Inr [0, a, 1, b]"
  proof -
    have d: "sqrt 3 - 1 \<noteq> 0" using sqrt3_bounds by linarith
    have c: "cos (pi / 4) \<noteq> 0" by (simp add: cos_45)
    have "precompute_R_body exact_ops (pi / 12) 3 [0, a, 1, 0] = Inr ([0, a, 1, 0][nat 3 := b])"
      by (rule exact_R_entry [where x = "pi / 4" and t = 1])
         (use c d f(9) tan_45 in simp_all)
    then show ?thesis by (simp add: numeral_3_eq_3)
  qed
  have rep: "replicate (nat 4) (0::real) = [0, 0, 0, 0]"
    by (simp add: eval_nat_numeral)
  have U: "[1..3] = [1, 2, 3::int]" by (simp add: upto.simps)
  show ?thesis
    using b1 b2 b3 rep by (simp add: precompute_R_def U)
qed

lemma exact_outer_3:
  fixes a b tol :: real
  assumes a: "a = (sqrt 3 - 1) / 2" and b: "b = sqrt 3 + 1"
    and tol: "0 \<le> tol" "tol < 1 / 2"
  shows "list_solutions_outer exact_ops 3 tol (Some (pi / 12)) [0, a, 1, b] [1..3] []
     = Inr [(1, 2, 3), (1, 3, 2), (2, 1, 3), (2, 2, 2), (2, 3, 1), (3, 1, 2), (3, 2, 1)]"
proof -
  let ?R = "[0, a, 1, b]"
  let ?th = "pi / 12"
  note f = sqrt3_facts [OF a b]
  have ab: "a * b = 1" and ba: "b * a = 1" using f(1) by (simp_all add: mult.commute)
  have a0: "0 < a" and ah: "a < 1 / 2" and b2: "2 < b" using f by simp_all
  have b0: "0 < b" using b2 by simp
  have g1: "py_getitem ?R 1 = Inr a" by (simp add: py_getitem_def)
  have g2: "py_getitem ?R 2 = Inr 1" by (simp add: py_getitem_def)
  have g3: "py_getitem ?R 3 = Inr b" by (simp add: py_getitem_def)
  have th: "0 < ?th" by simp
  have thz: "?th \<noteq> 0" by simp
  have A1: "tan (of_int 1 * ?th) = 2 - sqrt 3" by (simp add: tan_15)
  have A2: "tan (of_int 2 * ?th) = 1 / sqrt 3" by (simp add: tan_30)
  have A3: "tan (of_int 3 * ?th) = 1" by (simp add: tan_45)
  have L1: "of_int 1 * ?th < pi / 2" using pi_gt_zero by simp
  have L2: "of_int 2 * ?th < pi / 2" using pi_gt_zero by simp
  have L3: "of_int 3 * ?th < pi / 2" using pi_gt_zero by simp
  have Ta: "(1 / a) * sqrt 3 / (2 + 1 / a) = 1" by (rule f(5))
  have T1: "(1 / 1) * sqrt 3 / (2 + 1 / 1) = 1 / sqrt 3" by (rule f(6))
  have Tb: "(1 / b) * sqrt 3 / (2 + 1 / b) = 2 - sqrt 3" by (rule f(7))
  have one: "(0::real) < 1" by simp
  have k1: "(1::int) \<le> 1" "(1::int) \<le> 3" by simp_all
  have k2: "(1::int) \<le> 2" "(2::int) \<le> 3" by simp_all
  have k3: "(1::int) \<le> 3" "(3::int) \<le> 3" by simp_all
  have aa0: "0 < a * a" using a0 by simp
  have aa: "a * a < 1 / 4"
  proof -
    have "a * a < (1 / 2) * (1 / 2)" using a0 ah by (intro mult_strict_mono) simp_all
    then show ?thesis by simp
  qed
  have bb: "4 < b * b"
  proof -
    have "2 * 2 < b * b" using b2 by (intro mult_strict_mono) simp_all
    then show ?thesis by simp
  qed
  have bb0: "0 < b * b" using bb by linarith
  have far_a: "\<exists>Rk. py_getitem ?R k = Inr Rk \<and> tol < \<bar>a * a * Rk - 1\<bar>"
    if "1 \<le> k" "k \<le> 3" for k
  proof -
    have "k = 1 \<or> k = 2 \<or> k = 3" using that by arith
    moreover have "tol < \<bar>a * a * a - 1\<bar>"
    proof -
      have "a * a * a < a * a * 1" using aa0 ah by (intro mult_strict_left_mono) simp_all
      then show ?thesis using aa tol by simp
    qed
    moreover have "tol < \<bar>a * a * 1 - 1\<bar>" using aa tol by simp
    moreover have "tol < \<bar>a * a * b - 1\<bar>"
    proof -
      have "a * a * b = a * (a * b)" by simp
      then have e: "a * a * b = a" by (simp only: ab mult_1_right)
      show ?thesis unfolding e using ah a0 tol by linarith
    qed
    ultimately show ?thesis using g1 g2 g3 by blast
  qed
  have far_b: "\<exists>Rk. py_getitem ?R k = Inr Rk \<and> tol < \<bar>b * b * Rk - 1\<bar>"
    if "1 \<le> k" "k \<le> 3" for k
  proof -
    have "k = 1 \<or> k = 2 \<or> k = 3" using that by arith
    moreover have "tol < \<bar>b * b * a - 1\<bar>"
    proof -
      have "b * b * a = b * (b * a)" by simp
      then have e: "b * b * a = b" by (simp only: ba mult_1_right)
      show ?thesis unfolding e using b2 tol by linarith
    qed
    moreover have "tol < \<bar>b * b * 1 - 1\<bar>" using bb tol by simp
    moreover have "tol < \<bar>b * b * b - 1\<bar>"
    proof -
      have "b * b * 1 < b * b * b" using bb0 b2 by (intro mult_strict_left_mono) simp_all
      then show ?thesis using bb tol by simp
    qed
    ultimately show ?thesis using g1 g2 g3 by blast
  qed
  have B11: "list_solutions_body exact_ops 3 tol (Some ?th) ?R a 1 1 sols = Inr sols" for sols
    by (rule exact_pair_rejected [OF g1 refl aa0 thz far_a])
  have B12: "list_solutions_body exact_ops 3 tol (Some ?th) ?R a 1 2 sols = Inr (sols @ [(1, 2, 3)])"
    for sols
    by (rule exact_pair_found [OF g2 g3 _ a0 A3 Ta th L3 k3 ab tol(1)]) simp
  have B13: "list_solutions_body exact_ops 3 tol (Some ?th) ?R a 1 3 sols = Inr (sols @ [(1, 3, 2)])"
    for sols
    by (rule exact_pair_found [OF g3 g2 ab one A2 T1 th L2 k2 _ tol(1)]) simp
  have B21: "list_solutions_body exact_ops 3 tol (Some ?th) ?R 1 2 1 sols = Inr (sols @ [(2, 1, 3)])"
    for sols
    by (rule exact_pair_found [OF g1 g3 _ a0 A3 Ta th L3 k3 ab tol(1)]) simp
  have B22: "list_solutions_body exact_ops 3 tol (Some ?th) ?R 1 2 2 sols = Inr (sols @ [(2, 2, 2)])"
    for sols
    by (rule exact_pair_found [OF g2 g2 _ one A2 T1 th L2 k2 _ tol(1)]) simp_all
  have B23: "list_solutions_body exact_ops 3 tol (Some ?th) ?R 1 2 3 sols = Inr (sols @ [(2, 3, 1)])"
    for sols
    by (rule exact_pair_found [OF g3 g1 _ b0 A1 Tb th L1 k1 ba tol(1)]) simp
  have B31: "list_solutions_body exact_ops 3 tol (Some ?th) ?R b 3 1 sols = Inr (sols @ [(3, 1, 2)])"
    for sols
    by (rule exact_pair_found [OF g1 g2 ba one A2 T1 th L2 k2 _ tol(1)]) simp
  have B32: "list_solutions_body exact_ops 3 tol (Some ?th) ?R b 3 2 sols = Inr (sols @ [(3, 2, 1)])"
    for sols
    by (rule exact_pair_found [OF g2 g1 _ b0 A1 Tb th L1 k1 ba tol(1)]) simp
  have B33: "list_solutions_body exact_ops 3 tol (Some ?th) ?R b 3 3 sols = Inr sols" for sols
    by (rule exact_pair_rejected [OF g3 refl bb0 thz far_b])
  have U: "[1..3] = [1, 2, 3::int]" by (simp add: upto.simps)
  have I1: "list_solutions_inner exact_ops 3 tol (Some ?th) ?R a 1 [1..3] sols
      = Inr (sols @ [(1, 2, 3), (1, 3, 2)])" for sols
    by (simp add: U B11 B12 B13)
  have I2: "list_solutions_inner exact_ops 3 tol (Some ?th) ?R 1 2 [1..3] sols
      = Inr (sols @ [(2, 1, 3), (2, 2, 2), (2, 3, 1)])" for sols
    by (simp add: U B21 B22 B23)
  have I3: "list_solutions_inner exact_ops 3 tol (Some ?th) ?R b 3 [1..3] sols
      = Inr (sols @ [(3, 1, 2), (3, 2, 1)])" for sols
    by (simp add: U B31 B32 B33)
  show ?thesis
    unfolding U list_solutions_outer.simps
    by (simp only: g1 g2 g3 I1 [unfolded U] I2 [unfolded U] I3 [unfolded U] sum.case append.simps)
qed

lemma exact_sols_3:
  assumes "0 \<le> tol" and "tol < 1 / 2"
  shows "list_solutions exact_ops 3 tol
     = Inr [(1, 2, 3), (1, 3, 2), (2, 1, 3), (2, 2, 2), (2, 3, 1), (3, 1, 2), (3, 2, 1)]"
  using exact_table_3 [OF refl refl] exact_outer_3 [OF refl refl assms]
  by (simp add: list_solutions_def)

subsection \<open>Decimal rendering and the lines of a b-file\<close>

lemma write_lines_append:
  "write_lines n vs f =
     f @ concat (map (\<lambda>i. format_line (n + int i) (vs ! i)) [0..<length vs])"
proof (induction vs arbitrary: n f)
  case Nil
  show ?case by simp
next
  case (Cons v vs)
  have "write_lines n (v # vs) f = write_lines (n + 1) vs (f @ format_line n v)" by simp
  also have "\<dots> = (f @ format_line n v) @
      concat (map (\<lambda>i. format_line (n + 1 + int i) (vs ! i)) [0..<length vs])"
    by (rule Cons.IH)
  also have "\<dots> = f @ concat (map (\<lambda>i. format_line (n + int i) ((v # vs) ! i)) [0..<length (v # vs)])"
    by (simp add: map_upt_Suc add.assoc del: upt_Suc)
  finally show ?case .
qed

lemma write_lines_text:
  "write_lines 1 vals [] = concat (map (\<lambda>i. bfile_line vals i @ [newline]) [1..<Suc (length vals)])"
proof -
  have "map (\<lambda>i. bfile_line vals i @ [newline]) [1..<Suc (length vals)]
      = map (\<lambda>i. bfile_line vals i @ [newline]) (map Suc [0..<length vals])"
    by (simp only: map_Suc_upt One_nat_def)
  also have "\<dots> = map (\<lambda>i. format_line (1 + int i) (vals ! i)) [0..<length vals]"
    by (simp add: bfile_line_def format_line_def add.commute)
  finally show ?thesis by (simp add: write_lines_append)
qed

lemma is_digit_digit_char: "d < 10 \<Longrightarrow> is_digit (digit_char d)"
  by (simp add: is_digit_def digit_char_def)

lemma digit_char_val: "d < 10 \<Longrightarrow> (of_char (digit_char d) :: nat) - 48 = d"
  by (simp add: digit_char_def)

lemma str_nat_digits: "list_all is_digit (str_nat n) \<and> str_nat n \<noteq> []"
proof (induction n rule: str_nat.induct)
  case (1 n)
  show ?case
  proof (cases "n < 10")
    case True
    then show ?thesis by (simp add: str_nat.simps [of n] is_digit_digit_char)
  next
    case False
    then show ?thesis using 1 by (simp add: str_nat.simps [of n] is_digit_digit_char)
  qed
qed

lemma str_nat_value: "foldl (\<lambda>a c. 10 * a + (of_char c - 48)) 0 (str_nat n) = n"
proof (induction n rule: str_nat.induct)
  case (1 n)
  show ?case
  proof (cases "n < 10")
    case True
    then show ?thesis by (simp add: str_nat.simps [of n] digit_char_val)
  next
    case False
    then show ?thesis using 1 by (simp add: str_nat.simps [of n] digit_char_val)
  qed
qed

lemma parse_nat_str_nat: "parse_nat (str_nat n) = Some n"
  using str_nat_digits [of n] by (simp add: parse_nat_def str_nat_value)

lemma digit_not_special:
  "is_digit c \<Longrightarrow> c \<noteq> CHR ''-'' \<and> c \<noteq> CHR '' '' \<and> c \<noteq> newline"
  by (auto simp: is_digit_def newline_def)

lemma parse_int_str_int: "parse_int (str_int v) = Some v"
proof (cases "v < 0")
  case True
  then show ?thesis by (simp add: parse_int_def str_int_def parse_nat_str_nat)
next
  case False
  obtain c r where cr: "str_nat (nat v) = c # r"
    using str_nat_digits [of "nat v"] by (cases "str_nat (nat v)") auto
  have "is_digit c" using str_nat_digits [of "nat v"] cr by simp
  then have "c \<noteq> CHR ''-''" using digit_not_special by blast
  then have "parse_int (str_nat (nat v)) = map_option int (parse_nat (str_nat (nat v)))"
    using cr by (simp add: parse_int_def)
  then show ?thesis using False by (simp add: str_int_def parse_nat_str_nat)
qed

lemma str_int_chars: "c \<in> set (str_int v) \<Longrightarrow> c \<noteq> CHR '' '' \<and> c \<noteq> newline"
proof -
  assume c: "c \<in> set (str_int v)"
  have d: "\<And>m. c \<in> set (str_nat m) \<Longrightarrow> is_digit c"
    using str_nat_digits by (auto simp: list_all_iff)
  from c have "c = CHR ''-'' \<or> is_digit c"
    by (auto simp: str_int_def dest: d split: if_splits)
  then show ?thesis using digit_not_special [of c] by (auto simp: newline_def)
qed

lemma parse_line_bfile_line:
  "parse_line (bfile_line vals i) = Some (int i, vals ! (i - 1))"
proof -
  have t: "takeWhile (\<lambda>c. c \<noteq> CHR '' '') (bfile_line vals i) = str_int (int i)"
    using str_int_chars [of _ "int i"] by (simp add: bfile_line_def takeWhile_append2)
  have d: "drop (length (str_int (int i)) + 1) (bfile_line vals i) = str_int (vals ! (i - 1))"
    by (simp add: bfile_line_def)
  show ?thesis
    unfolding parse_line_def t Let_def d by (simp add: parse_int_str_int)
qed

lemma split_lines_line:
  "newline \<notin> set l \<Longrightarrow> split_lines (l @ newline # rest) cur = (cur @ l) # split_lines rest []"
  by (induction l arbitrary: cur) auto

lemma split_lines_concat:
  "(\<And>l. l \<in> set ls \<Longrightarrow> newline \<notin> set l) \<Longrightarrow>
     split_lines (concat (map (\<lambda>l. l @ [newline]) ls)) [] = ls"
proof (induction ls)
  case Nil
  show ?case by simp
next
  case (Cons l ls)
  have "newline \<notin> set l" using Cons.prems by simp
  then have "split_lines ((l @ [newline]) @ concat (map (\<lambda>l. l @ [newline]) ls)) []
      = l # split_lines (concat (map (\<lambda>l. l @ [newline]) ls)) []"
    using split_lines_line [of l _ "[]"] by simp
  then show ?case using Cons by simp
qed

lemma bfile_line_chars: "newline \<notin> set (bfile_line vals i)"
  using str_int_chars by (auto simp: bfile_line_def newline_def)

lemma split_lines_text:
  "split_lines (write_lines 1 vals []) [] = map (bfile_line vals) [1..<Suc (length vals)]"
proof -
  have e: "write_lines 1 vals [] =
      concat (map (\<lambda>l. l @ [newline]) (map (bfile_line vals) [1..<Suc (length vals)]))"
    by (simp add: write_lines_text comp_def del: upt_Suc)
  show ?thesis
    unfolding e by (rule split_lines_concat) (auto simp: bfile_line_chars)
qed

lemma parse_lines_map:
  "parse_lines (map (bfile_line vals) is) = Some (map (\<lambda>i. (int i, vals ! (i - 1))) is)"
  by (induction "is") (simp_all add: parse_line_bfile_line)

lemma enumerate_from_one:
  "map (\<lambda>i. (int i, vals ! (i - 1))) [1..<Suc (length vals)] = zip [1..int (length vals)] vals"
proof (rule nth_equalityI)
  show "length (map (\<lambda>i. (int i, vals ! (i - 1))) [1..<Suc (length vals)])
      = length (zip [1..int (length vals)] vals)"
    by (simp del: upt_Suc)
  fix i
  assume "i < length (map (\<lambda>i. (int i, vals ! (i - 1))) [1..<Suc (length vals)])"
  then have i: "i < length vals" by (simp del: upt_Suc)
  then have "[1..<Suc (length vals)] ! i = 1 + i" by (simp del: upt_Suc)
  moreover have "[1..int (length vals)] ! i = 1 + int i" using i by simp
  ultimately show "map (\<lambda>i. (int i, vals ! (i - 1))) [1..<Suc (length vals)] ! i
      = zip [1..int (length vals)] vals ! i"
    using i by (simp del: upt_Suc)
qed

lemma parse_bfile_text:
  "parse_bfile (write_lines 1 vals []) = Some (zip [1..int (length vals)] vals)"
  using enumerate_from_one [of vals]
  by (simp add: parse_bfile_def split_lines_text parse_lines_map del: upt_Suc)

section \<open>The claims\<close>

text \<open>
  C2. For every integer \<open>n \<ge> 1\<close>, \<open>a_rule n\<close> is 0 when \<open>n\<close> is even, \<open>3n - 2\<close> when
  \<open>n\<close> is odd and \<open>n mod 10 \<noteq> 9\<close>, and \<open>3n + 10\<close> when \<open>n\<close> is odd and \<open>n mod 10 = 9\<close>;
  in particular \<open>a_rule 1 = 1\<close>, \<open>a_rule 9 = 37\<close>, \<open>a_rule 10 = 0\<close> and \<open>a_rule 19 = 67\<close>.
\<close>

theorem a_rule_closed_form:
  "(1 \<le> n \<longrightarrow>
      (even n \<longrightarrow> a_rule n = 0) \<and>
      (odd n \<and> n mod 10 \<noteq> 9 \<longrightarrow> a_rule n = 3 * n - 2) \<and>
      (odd n \<and> n mod 10 = 9 \<longrightarrow> a_rule n = 3 * n + 10)) \<and>
   a_rule 1 = 1 \<and> a_rule 9 = 37 \<and> a_rule 10 = 0 \<and> a_rule 19 = 67"
  by (simp add: a_rule_def even_iff_mod_2_eq_zero)

theorem a_rule_closed_form_witness:
  "(1::int) \<le> 29 \<and> odd (29::int) \<and> (29::int) mod 10 = 9 \<and> a_rule 29 = 97
   \<and> (1::int) \<le> 7 \<and> odd (7::int) \<and> (7::int) mod 10 \<noteq> 9 \<and> a_rule 7 = 19
   \<and> (1::int) \<le> 4 \<and> even (4::int) \<and> a_rule 4 = 0"
  using a_rule_closed_form [of 29] a_rule_closed_form [of 7] a_rule_closed_form [of 4]
  by simp

text \<open>
  C3. For every integer \<open>n\<close> and every tolerance \<open>tol\<close>, \<open>list_solutions n tol\<close> returns a
  list whose length is the result of \<open>d_angle_fast n tol\<close>: the two run the same pair loop,
  candidate inversion and verification, one counting and one appending. Whatever the
  floating-point operations are, the Counter's outcome is the Enumerator's with the list
  replaced by its length (and the same exception where one is raised).
\<close>

theorem list_solutions_length_is_count:
  "d_angle_fast fl n tol =
     (case list_solutions fl n tol of Inl e \<Rightarrow> Inl e | Inr sols \<Rightarrow> Inr (int (length sols)))"
  using d_angle_fast_count [of fl n tol] by (simp add: count_of_def)

theorem list_solutions_length_is_count_witness:
  "list_solutions exact_ops 1 (1 / 10 ^ 12) = Inr [(1, 1, 1)]
   \<and> d_angle_fast exact_ops 1 (1 / 10 ^ 12) = Inr 1"
  using list_solutions_length_is_count [of exact_ops 1 "1 / 10 ^ 12"]
    exact_sols_1 [of "1 / 10 ^ 12"]
  by simp

text \<open>
  C4. For every \<open>n \<ge> 1\<close> and tolerance \<open>tol\<close>, every triple \<open>(i, j, k)\<close> in the list returned by
  \<open>list_solutions n tol\<close> satisfies \<open>1 \<le> i \<le> n\<close>, \<open>1 \<le> j \<le> n\<close>, \<open>1 \<le> k \<le> n\<close> and
  \<open>|R[i]\<cdot>R[j]\<cdot>R[k] - 1| \<le> tol\<close>, where \<open>R\<close> is the table built by \<open>precompute_R n\<close>; the
  check is the one the program computes, in the program's arithmetic.
\<close>

theorem list_solutions_triples_valid:
  assumes "1 \<le> n"
    and "list_solutions fl n tol = Inr sols"
    and "precompute_R fl n = Inr (theta, R)"
    and "(i, j, k) \<in> set sols"
  shows "1 \<le> i \<and> i \<le> n \<and> 1 \<le> j \<and> j \<le> n \<and> 1 \<le> k \<and> k \<le> n \<and> ceva_ok fl tol R i j k"
proof -
  from assms(1) have n: "0 < n" by simp
  from list_solutions_structure [OF assms(2) n] assms(3) have
    s: "subseq (map pair_of sols) (List.product [1..n] [1..n])" and
    a: "\<forall>t \<in> set sols. accepted fl n tol R t"
    by auto
  have "(i, j) \<in> set (map pair_of sols)"
    using assms(4) by (force simp: pair_of_def)
  then have "(i, j) \<in> set (List.product [1..n] [1..n])"
    using subseq_set_mono [OF s] by blast
  then have "1 \<le> i \<and> i \<le> n \<and> 1 \<le> j \<and> j \<le> n" by simp
  moreover have "accepted fl n tol R (i, j, k)" using a assms(4) by blast
  ultimately show ?thesis by (simp add: accepted_def)
qed

theorem list_solutions_triples_valid_witness:
  "list_solutions exact_ops 1 (1 / 10 ^ 12) = Inr [(1, 1, 1)]
   \<and> precompute_R exact_ops 1 = Inr (Some (pi / 6), [0, 1])
   \<and> ceva_ok exact_ops (1 / 10 ^ 12) [0, 1] 1 1 1"
  using list_solutions_triples_valid
      [of 1 exact_ops "1 / 10 ^ 12" "[(1, 1, 1)]" "Some (pi / 6)" "[0, 1]" 1 1 1]
    exact_sols_1 [of "1 / 10 ^ 12"] exact_table_1
  by simp



text \<open>
  C8. For every \<open>n \<ge> 1\<close> and tolerance \<open>tol\<close>, the list returned by \<open>list_solutions n tol\<close> is
  in discovery order: strictly increasing in the lexicographic order of the pair \<open>(i, j)\<close>.
  So each ordered pair \<open>(i, j)\<close> is in at most one returned triple, and the length of the
  list, which is the result of \<open>d_angle_fast n tol\<close>, is at most \<open>n\<^sup>2\<close>.
\<close>

theorem list_solutions_discovery_order:
  assumes "1 \<le> n"
    and "list_solutions fl n tol = Inr sols"
  shows "sorted_wrt (\<lambda>s t. pair_less (pair_of s) (pair_of t)) sols
       \<and> distinct (map pair_of sols)
       \<and> int (length sols) \<le> n * n
       \<and> d_angle_fast fl n tol = Inr (int (length sols))"
proof -
  from assms(1) have n: "0 < n" by simp
  from list_solutions_structure [OF assms(2) n] have
    s: "subseq (map pair_of sols) (List.product [1..n] [1..n])"
    by blast
  have "d_angle_fast fl n tol = Inr (int (length sols))"
    using d_angle_fast_count [of fl n tol] assms(2) by simp
  then show ?thesis using pairs_in_order [OF s] by simp
qed

theorem list_solutions_discovery_order_witness:
  "(1::int) \<le> 3
   \<and> list_solutions exact_ops 3 (1 / 10 ^ 12)
       = Inr [(1, 2, 3), (1, 3, 2), (2, 1, 3), (2, 2, 2), (2, 3, 1), (3, 1, 2), (3, 2, 1)]
   \<and> sorted_wrt (\<lambda>s t. pair_less (pair_of s) (pair_of t))
         [(1, 2, 3), (1, 3, 2), (2, 1, 3), (2, 2, 2), (2, 3, 1), (3, 1, 2), (3, 2, 1)]
   \<and> map pair_of [(1, 2, 3), (1, 3, 2), (2, 1, 3), (2, 2, 2), (2, 3, 1), (3, 1, 2), (3, 2, 1)]
       = [(1, 2), (1, 3), (2, 1), (2, 2), (2, 3), (3, 1), (3, 2)]
   \<and> distinct (map pair_of
         [(1, 2, 3), (1, 3, 2), (2, 1, 3), (2, 2, 2), (2, 3, 1), (3, 1, 2), (3, 2, 1)])
   \<and> int (length [(1::int, 2::int, 3::int), (1, 3, 2), (2, 1, 3), (2, 2, 2), (2, 3, 1),
         (3, 1, 2), (3, 2, 1)]) \<le> 3 * 3
   \<and> d_angle_fast exact_ops 3 (1 / 10 ^ 12) = Inr 7"
proof -
  let ?S = "[(1::int, 2::int, 3::int), (1, 3, 2), (2, 1, 3), (2, 2, 2), (2, 3, 1), (3, 1, 2), (3, 2, 1)]"
  have n: "(1::int) \<le> 3" by simp
  have h: "list_solutions exact_ops 3 (1 / 10 ^ 12) = Inr ?S"
    by (rule exact_sols_3) simp_all
  have c: "sorted_wrt (\<lambda>s t. pair_less (pair_of s) (pair_of t)) ?S
       \<and> distinct (map pair_of ?S)
       \<and> int (length ?S) \<le> 3 * 3
       \<and> d_angle_fast exact_ops 3 (1 / 10 ^ 12) = Inr (int (length ?S))"
    by (rule list_solutions_discovery_order [OF n h])
  have m: "map pair_of ?S = [(1, 2), (1, 3), (2, 1), (2, 2), (2, 3), (3, 1), (3, 2)]"
    by (simp add: pair_of_def)
  have l: "int (length ?S) = 7" by simp
  from c have d: "d_angle_fast exact_ops 3 (1 / 10 ^ 12) = Inr 7" by (simp only: l)
  from c have c1: "sorted_wrt (\<lambda>s t. pair_less (pair_of s) (pair_of t)) ?S" by (rule conjunct1)
  from c have c2: "distinct (map pair_of ?S)" by blast
  from c have c3: "int (length ?S) \<le> 3 * 3" by blast
  show ?thesis using n h c1 m c2 c3 d by blast
qed

text \<open>
  C10. For every finite sequence \<open>vals\<close> of length \<open>m\<close>, \<open>write_bfile vals path\<close> writes a text
  of exactly \<open>m\<close> lines, the \<open>i\<close>-th being \<open><i> <vals[i-1]>\<close> followed by a newline, for
  \<open>i = 1..m\<close>: offset 1, space-separated, no header, nothing after the final newline. Parsing
  the file back gives the indices \<open>1..m\<close> and the original values. The path must be one that
  can be opened for writing.
\<close>

theorem write_bfile_format_roundtrip:
  assumes "writable fs path"
  shows "write_bfile vals path fs = Inr (fs\<lparr>files := (files fs)(path \<mapsto> bfile_text vals)\<rparr>)
       \<and> split_lines (bfile_text vals) [] = map (bfile_line vals) [1..<Suc (length vals)]
       \<and> length (split_lines (bfile_text vals) []) = length vals
       \<and> parse_bfile (bfile_text vals) = Some (zip [1..int (length vals)] vals)
       \<and> map_option (map snd) (parse_bfile (bfile_text vals)) = Some vals"
proof -
  have t: "write_lines 1 vals [] = bfile_text vals"
    by (simp only: write_lines_text bfile_text_def)
  have w: "write_bfile vals path fs = Inr (fs\<lparr>files := (files fs)(path \<mapsto> bfile_text vals)\<rparr>)"
    using assms by (simp add: write_bfile_def t)
  have l: "split_lines (bfile_text vals) [] = map (bfile_line vals) [1..<Suc (length vals)]"
    using split_lines_text [of vals] by (simp only: t)
  have m: "length (split_lines (bfile_text vals) []) = length vals"
    by (simp add: l del: upt_Suc)
  have p: "parse_bfile (bfile_text vals) = Some (zip [1..int (length vals)] vals)"
    using parse_bfile_text [of vals] by (simp only: t)
  have "length [1..int (length vals)] = length vals" by simp
  then have "map snd (zip [1..int (length vals)] vals) = vals" by (rule map_snd_zip)
  then have "map_option (map snd) (parse_bfile (bfile_text vals)) = Some vals"
    by (simp add: p)
  with w l m p show ?thesis by blast
qed

theorem write_bfile_format_roundtrip_witness:
  "writable empty_fs ''b.txt''
   \<and> (\<exists>fs'. write_bfile [1, 0, 7, 0, 13] ''b.txt'' empty_fs = Inr fs'
         \<and> files fs' ''b.txt'' = Some (bfile_text [1, 0, 7, 0, 13]))
   \<and> split_lines (bfile_text [1, 0, 7, 0, 13]) [] = [''1 1'', ''2 0'', ''3 7'', ''4 0'', ''5 13'']
   \<and> map_option (map snd) (parse_bfile (bfile_text [1, 0, 7, 0, 13])) = Some [1, 0, 7, 0, 13]"
proof -
  have w: "writable empty_fs ''b.txt''" by (simp add: empty_fs_def)
  have e: "map (bfile_line [1, 0, 7, 0, 13]) [1..<Suc (length [1, 0, 7, 0, 13 :: int])]
      = [''1 1'', ''2 0'', ''3 7'', ''4 0'', ''5 13'']"
    by code_simp
  show ?thesis
    using w write_bfile_format_roundtrip [OF w, of "[1, 0, 7, 0, 13]"] e by simp
qed

end
